theory Spec2Isabelle
  imports Main "HOL-Library.Word" "HOL-Library.Sublist"
begin

section \<open>JavaScript strings\<close>

text \<open>
  A JavaScript string is a sequence of UTF-16 code units. The regular expressions of
  \<^verbatim>\<open>src/main.ts\<close> carry no \<^verbatim>\<open>u\<close> flag, so they work on code units, and so does
  \<^verbatim>\<open>String.prototype.trim\<close> for the characters it strips (all in the basic plane).
  \<open>js\<close> turns an ASCII literal into such a string.
\<close>

type_synonym jschar = "16 word"
type_synonym jsstring = "jschar list"

definition js :: "string \<Rightarrow> jsstring" where
  "js s = map of_char s"

text \<open>ECMAScript \<open>LineTerminator\<close>: LF, CR, LS (U+2028), PS (U+2029).\<close>

definition is_line_terminator :: "jschar \<Rightarrow> bool" where
  "is_line_terminator x = (x = 0x000A \<or> x = 0x000D \<or> x = 0x2028 \<or> x = 0x2029)"

text \<open>
  \<^verbatim>\<open>s.split(sep)\<close> and \<^verbatim>\<open>lines.join(sep)\<close> for a separator of one code unit
  (the source uses \<^verbatim>\<open>'\n'\<close>, code unit \<open>0x0A\<close>). Splitting the empty string gives one
  empty line.
\<close>

fun split_acc :: "jschar \<Rightarrow> jsstring \<Rightarrow> jsstring \<Rightarrow> jsstring list" where
  "split_acc sep cur [] = [cur]"
| "split_acc sep cur (x # xs) =
     (if x = sep then cur # split_acc sep [] xs else split_acc sep (cur @ [x]) xs)"

definition split :: "jschar \<Rightarrow> jsstring \<Rightarrow> jsstring list" where
  "split sep s = split_acc sep [] s"

fun join :: "jschar \<Rightarrow> jsstring list \<Rightarrow> jsstring" where
  "join sep [] = []"
| "join sep [l] = l"
| "join sep (l # ls) = l @ sep # join sep ls"

section \<open>Regular expressions\<close>

text \<open>
  The fragment of ECMAScript regular expressions that the source uses: literal characters,
  character classes, \<^verbatim>\<open>.\<close> (any code unit but a line terminator), sequencing, the greedy
  \<^verbatim>\<open>?\<close> and \<^verbatim>\<open>*\<close>, and capture groups. \<open>rx r (s, caps)\<close> lists, in the order in which
  the backtracking matcher tries them, the ways \<open>r\<close> matches a prefix of \<open>s\<close>: each as the
  rest of the input with the captures recorded so far. The head of the list is the match
  the engine reports.
\<close>

datatype atom = Lit jschar | OneOf "jschar list" | Dot

fun atom_ok :: "atom \<Rightarrow> jschar \<Rightarrow> bool" where
  "atom_ok (Lit c) x = (x = c)"
| "atom_ok (OneOf cs) x = (x \<in> set cs)"
| "atom_ok Dot x = (\<not> is_line_terminator x)"

datatype regex = Eps | Atom atom | Cat regex regex | Opt regex | Star atom | Grp nat regex

type_synonym captures = "nat \<rightharpoonup> jsstring"

fun star_atom :: "atom \<Rightarrow> jsstring \<Rightarrow> jsstring list" where
  "star_atom a [] = [[]]"
| "star_atom a (x # xs) = (if atom_ok a x then star_atom a xs @ [x # xs] else [x # xs])"

fun rx :: "regex \<Rightarrow> jsstring \<times> captures \<Rightarrow> (jsstring \<times> captures) list" where
  "rx Eps st = [st]"
| "rx (Atom a) (s, c) = (case s of [] \<Rightarrow> [] | x # xs \<Rightarrow> if atom_ok a x then [(xs, c)] else [])"
| "rx (Cat r1 r2) st = concat (map (rx r2) (rx r1 st))"
| "rx (Opt r) st = rx r st @ [st]"
| "rx (Star a) (s, c) = map (\<lambda>s'. (s', c)) (star_atom a s)"
| "rx (Grp n r) (s, c) =
     map (\<lambda>(s', c'). (s', c'(n \<mapsto> take (length s - length s') s))) (rx r (s, c))"

definition lit :: "string \<Rightarrow> regex" where
  "lit s = foldr (\<lambda>c r. Cat (Atom (Lit c)) r) (js s) Eps"

text \<open>
  \<^verbatim>\<open>RegExp.prototype.exec\<close> from index 0 of a regular expression that is not sticky: the
  leftmost start position at which the pattern matches, with the text before the match, the
  matched text, the captures and the text after the match. \<open>None\<close> is JavaScript's
  \<^verbatim>\<open>null\<close>.
\<close>

record rmatch =
  before :: jsstring
  matched :: jsstring
  groups :: captures
  after :: jsstring

fun search :: "regex \<Rightarrow> jsstring \<Rightarrow> jsstring \<Rightarrow> rmatch option" where
  "search r pre s =
     (case rx r (s, Map.empty) of
        (s', c) # _ \<Rightarrow>
          Some \<lparr>before = pre, matched = take (length s - length s') s, groups = c, after = s'\<rparr>
      | [] \<Rightarrow> (case s of [] \<Rightarrow> None | x # xs \<Rightarrow> search r (pre @ [x]) xs))"

declare search.simps [simp del]

definition exec :: "regex \<Rightarrow> jsstring \<Rightarrow> rmatch option" where
  "exec r s = search r [] s"

text \<open>
  \<^verbatim>\<open>s.replace(re, fn)\<close> for a regular expression without the \<^verbatim>\<open>g\<close> flag: the first match
  is replaced by what the callback returns (inserted as it is), and a string without a
  match is returned unchanged.
\<close>

definition replace_first :: "regex \<Rightarrow> (rmatch \<Rightarrow> jsstring) \<Rightarrow> jsstring \<Rightarrow> jsstring" where
  "replace_first r f s =
     (case exec r s of None \<Rightarrow> s | Some m \<Rightarrow> before m @ f m @ after m)"

text \<open>A capture group inside a template literal: a group that took no part reads \<^verbatim>\<open>undefined\<close>.\<close>

definition group_text :: "captures \<Rightarrow> nat \<Rightarrow> jsstring" where
  "group_text c n = (case c n of Some t \<Rightarrow> t | None \<Rightarrow> js ''undefined'')"

section \<open>The command \<^verbatim>\<open>toggle-embedding\<close> (main.ts, lines 33 to 62)\<close>

text \<open>
  Line 48 tests each line against \<^verbatim>\<open>/- \[[x ]\] !?\[\[.*\]\]/\<close>, line 50 replaces with
  \<^verbatim>\<open>/- \[([x ])\] (!)?\[\[(.*)\]\]/\<close>. Neither pattern has \<^verbatim>\<open>^\<close> or \<^verbatim>\<open>$\<close>.
  Code unit \<open>0x21\<close> is the exclamation mark.
\<close>

definition checklist_test :: regex where
  "checklist_test =
     Cat (lit ''- ['') (Cat (Atom (OneOf (js ''x ''))) (Cat (lit ''] '')
       (Cat (Opt (Atom (Lit 0x21))) (Cat (lit ''[['') (Cat (Star Dot) (lit '']]''))))))"

definition checklist_replace :: regex where
  "checklist_replace =
     Cat (lit ''- ['') (Cat (Grp 1 (Atom (OneOf (js ''x '')))) (Cat (lit ''] '')
       (Cat (Opt (Grp 2 (Atom (Lit 0x21)))) (Cat (lit ''[['') (Cat (Grp 3 (Star Dot)) (lit '']]''))))))"

text \<open>
  The replacement callback of line 51,
  \<^verbatim>\<open>(match, checked, exclamation, link) => `- [${checked}] ${this.embeddingEnabled ? '!' : ''}[[${link}]]`\<close>.
\<close>

definition emit_line :: "bool \<Rightarrow> rmatch \<Rightarrow> jsstring" where
  "emit_line embeddingEnabled m =
     js ''- ['' @ group_text (groups m) 1 @ js ''] '' @
     (if embeddingEnabled then js ''!'' else js '''') @
     js ''[['' @ group_text (groups m) 3 @ js '']]''"

text \<open>The body of the loop (lines 48 to 53) on one line, and the loop of line 46.\<close>

definition rewrite_line :: "bool \<Rightarrow> jsstring \<Rightarrow> jsstring" where
  "rewrite_line e l =
     (if exec checklist_test l \<noteq> None then replace_first checklist_replace (emit_line e) l else l)"

function toggle_loop :: "bool \<Rightarrow> nat \<Rightarrow> jsstring list \<Rightarrow> jsstring list" where
  "toggle_loop e i lines =
     (if i < length lines
      then toggle_loop e (i + 1) (lines[i := rewrite_line e (lines ! i)])
      else lines)"
  by pat_completeness auto
termination
  by (relation "measure (\<lambda>(e, i, lines). length lines - i)") auto

declare toggle_loop.simps [simp del]

text \<open>
  The state the command works on: the editor's text (\<^verbatim>\<open>editor.getValue()\<close>,
  \<^verbatim>\<open>editor.setValue\<close>) and the plugin's field \<^verbatim>\<open>embeddingEnabled\<close> (line 15, initially
  true). The view is known by its type only.
\<close>

record plugin =
  editor_value :: jsstring
  embeddingEnabled :: bool

record view =
  getViewType :: jsstring

definition toggle_run :: "plugin \<Rightarrow> plugin" where
  "toggle_run st =
     (let lines = split 0x0A (editor_value st);
          lines' = toggle_loop (embeddingEnabled st) 0 lines
      in st\<lparr>editor_value := join 0x0A lines',
            embeddingEnabled := \<not> embeddingEnabled st\<rparr>)"

text \<open>
  \<^verbatim>\<open>editorCheckCallback\<close> (lines 36 to 61): when the host is only checking, the answer is
  whether the view is a markdown view and nothing changes; otherwise the command runs and
  returns nothing (\<open>None\<close>).
\<close>

definition toggle_editorCheckCallback :: "bool \<Rightarrow> view \<Rightarrow> plugin \<Rightarrow> bool option \<times> plugin" where
  "toggle_editorCheckCallback checking v st =
     (if checking then (Some (getViewType v = js ''markdown''), st)
      else (None, toggle_run st))"

text \<open>
  The transform in the shape the specification gives it: from a text and a flag to the new
  text and the new flag, by one run of the command.
\<close>

definition toggleEmbeds :: "jsstring \<Rightarrow> bool \<Rightarrow> jsstring \<times> bool" where
  "toggleEmbeds documentText embedEnabled =
     (let st = snd (toggle_editorCheckCallback False \<lparr>getViewType = js ''markdown''\<rparr>
                      \<lparr>editor_value = documentText, embeddingEnabled = embedEnabled\<rparr>)
      in (editor_value st, embeddingEnabled st))"

text \<open>The commands that \<^verbatim>\<open>onload\<close> registers, by \<^verbatim>\<open>id\<close> and \<^verbatim>\<open>name\<close>.\<close>

record command =
  cmd_id :: jsstring
  cmd_name :: jsstring

definition toggle_command :: command where
  "toggle_command = \<lparr>cmd_id = js ''toggle-embedding'', cmd_name = js ''Toggle Embedding Notes''\<rparr>"

definition registered_commands :: "command list" where
  "registered_commands =
     [toggle_command,
      \<lparr>cmd_id = js ''create-file'', cmd_name = js ''Create File''\<rparr>,
      \<lparr>cmd_id = js ''open-sample-modal-simple'', cmd_name = js ''Open sample modal (simple)''\<rparr>,
      \<lparr>cmd_id = js ''sample-editor-command'', cmd_name = js ''Sample editor command''\<rparr>,
      \<lparr>cmd_id = js ''open-sample-modal-complex'', cmd_name = js ''Open sample modal (complex)''\<rparr>]"

section \<open>\<^verbatim>\<open>CreatePageModal\<close> (main.ts, lines 163 to 229)\<close>

text \<open>
  \<^verbatim>\<open>isValidFileName\<close> (lines 224 to 228) tests a fresh
  \<^verbatim>\<open>/[\/\\?%*:|"<>]/g\<close>, so the search starts at index 0. The class holds, in this order,
  slash \<open>0x2F\<close>, backslash \<open>0x5C\<close>, question mark \<open>0x3F\<close>, percent \<open>0x25\<close>, asterisk
  \<open>0x2A\<close>, colon \<open>0x3A\<close>, bar \<open>0x7C\<close>, double quote \<open>0x22\<close>, less-than \<open>0x3C\<close> and
  greater-than \<open>0x3E\<close>.
\<close>

definition forbidden_chars :: "jschar list" where
  "forbidden_chars = [0x2F, 0x5C, 0x3F, 0x25, 0x2A, 0x3A, 0x7C, 0x22, 0x3C, 0x3E]"

definition isValidFileName :: "jsstring \<Rightarrow> bool" where
  "isValidFileName fileName = (\<not> (exec (Atom (OneOf forbidden_chars)) fileName \<noteq> None))"

text \<open>
  \<^verbatim>\<open>String.prototype.trim\<close> strips ECMAScript \<open>WhiteSpace\<close> (TAB, VT, FF, ZWNBSP and the
  Unicode space separators) and \<open>LineTerminator\<close> from both ends.
\<close>

definition is_white_space :: "jschar \<Rightarrow> bool" where
  "is_white_space x =
     (x = 0x0009 \<or> x = 0x000B \<or> x = 0x000C \<or> x = 0x0020 \<or> x = 0x00A0 \<or> x = 0x1680 \<or>
      (0x2000 \<le> x \<and> x \<le> 0x200A) \<or> x = 0x202F \<or> x = 0x205F \<or> x = 0x3000 \<or> x = 0xFEFF)"

definition trimmable :: "jschar \<Rightarrow> bool" where
  "trimmable x = (is_white_space x \<or> is_line_terminator x)"

definition trim :: "jsstring \<Rightarrow> jsstring" where
  "trim s = rev (dropWhile trimmable (rev (dropWhile trimmable s)))"

text \<open>
  What the dialog reads and writes: the selected text it was opened with, the input
  element's value and border colour, the error paragraph's text, colour and display, the
  vault (a path has a file, a folder or nothing: \<^verbatim>\<open>getAbstractFileByPath\<close>), the calls
  of \<^verbatim>\<open>vault.create(path, data)\<close> made so far, in order, and whether \<^verbatim>\<open>close()\<close> was
  called.
\<close>

datatype abstract_file = TFile jsstring | TFolder

record modal =
  selectedText :: jsstring
  textInput_value :: jsstring
  textInput_borderColor :: jsstring
  errorMessage_text :: jsstring
  errorMessage_color :: jsstring
  errorMessage_display :: jsstring
  vault :: "jsstring \<rightharpoonup> abstract_file"
  vault_create_calls :: "(jsstring \<times> jsstring) list"
  closed :: bool

definition showError :: "jsstring \<Rightarrow> modal \<Rightarrow> modal" where
  "showError message m =
     m\<lparr>errorMessage_text := message, errorMessage_color := js ''red'',
       errorMessage_display := js ''block'', textInput_borderColor := js ''red''\<rparr>"

definition clearError :: "modal \<Rightarrow> modal" where
  "clearError m = m\<lparr>errorMessage_display := js ''none'', textInput_borderColor := []\<rparr>"

text \<open>
  \<^verbatim>\<open>onOpen\<close> (lines 181 to 195): the input starts with the first line of the selection.
\<close>

definition onOpen :: "(jsstring \<rightharpoonup> abstract_file) \<Rightarrow> jsstring \<Rightarrow> modal" where
  "onOpen files sel =
     (let title = (case split 0x0A sel of l # _ \<Rightarrow> l | [] \<Rightarrow> js ''undefined'');
          m = \<lparr>selectedText = sel, textInput_value = title, textInput_borderColor = [],
               errorMessage_text = js ''Invalid file name.'', errorMessage_color = [],
               errorMessage_display = js ''none'', vault = files, vault_create_calls = [],
               closed = False\<rparr>
      in if \<not> isValidFileName (textInput_value m)
         then showError (js ''Invalid file name.'') m else m)"

text \<open>
  The \<^verbatim>\<open>input\<close> listener (lines 197 to 206), run after the input element took the typed
  value, and the \<^verbatim>\<open>keydown\<close> listener (lines 208 to 221), which also tells whether it
  called \<^verbatim>\<open>event.preventDefault()\<close>.
\<close>

definition on_input :: "jsstring \<Rightarrow> modal \<Rightarrow> modal" where
  "on_input typed m0 =
     (let m = m0\<lparr>textInput_value := typed\<rparr>;
          fileName = js ''Research/'' @ trim (textInput_value m) @ js ''.md''
      in if \<not> isValidFileName (textInput_value m) then showError (js ''Invalid file name.'') m
         else if vault m fileName \<noteq> None then showError (js ''File already exists.'') m
         else clearError m)"

definition on_keydown :: "jsstring \<Rightarrow> modal \<Rightarrow> modal \<times> bool" where
  "on_keydown key m =
     (let fileName = js ''Research/'' @ trim (textInput_value m) @ js ''.md''
      in if key = js ''Enter''
         then ((if \<not> isValidFileName (textInput_value m)
                then showError (js ''Invalid file name.'') m
                else if vault m fileName \<noteq> None
                then showError (js ''File already exists.'') m
                else m\<lparr>vault_create_calls := vault_create_calls m @ [(fileName, selectedText m)],
                       closed := True\<rparr>), True)
         else (m, False))"

section \<open>Auxiliary notions for the proofs\<close>

text \<open>
  None of the following is part of the program. \<open>closes u\<close> lists the ways to read \<open>u\<close> as
  a link target without line terminators, the closing brackets and a rest, longest target
  first; \<open>strip\<close> forgets capture groups; \<open>hdr c b\<close> is the fixed-width start of a match up
  to the opening brackets; \<open>caps\<close> are the captures of a match; \<open>parses l p c b link r\<close>
  says that the leftmost match in the line \<open>l\<close> starts after \<open>p\<close>, with state \<open>c\<close>, with an
  exclamation mark iff \<open>b\<close>, with target \<open>link\<close> and rest \<open>r\<close>.
\<close>

fun closes :: "jsstring \<Rightarrow> (jsstring \<times> jsstring) list" where
  "closes [] = []"
| "closes (x # xs) =
     (if is_line_terminator x then [] else map (\<lambda>(l, r). (x # l, r)) (closes xs)) @
     (if prefix (js '']]'') (x # xs) then [([], drop 2 (x # xs))] else [])"

fun strip :: "regex \<Rightarrow> regex" where
  "strip Eps = Eps"
| "strip (Atom a) = Atom a"
| "strip (Cat r1 r2) = Cat (strip r1) (strip r2)"
| "strip (Opt r) = Opt (strip r)"
| "strip (Star a) = Star a"
| "strip (Grp n r) = strip r"

definition hdr :: "jschar \<Rightarrow> bool \<Rightarrow> jsstring" where
  "hdr c b = js ''- ['' @ [c] @ js ''] '' @ (if b then js ''!'' else []) @ js ''[[''"

definition caps :: "jschar \<Rightarrow> bool \<Rightarrow> jsstring \<Rightarrow> captures" where
  "caps c b l = (if b then [1 \<mapsto> [c], 2 \<mapsto> js ''!'', 3 \<mapsto> l] else [1 \<mapsto> [c], 3 \<mapsto> l])"

definition parses :: "jsstring \<Rightarrow> jsstring \<Rightarrow> jschar \<Rightarrow> bool \<Rightarrow> jsstring \<Rightarrow> jsstring \<Rightarrow> bool" where
  "parses l p c b link r \<longleftrightarrow>
     l = p @ hdr c b @ link @ js '']]'' @ r \<and> c \<in> set (js ''x '') \<and>
     (\<exists>ms. closes (link @ js '']]'' @ r) = (link, r) # ms) \<and>
     (\<forall>p1 p2. p = p1 @ p2 \<and> p2 \<noteq> [] \<longrightarrow>
        rx checklist_replace (p2 @ hdr c b @ link @ js '']]'' @ r, Map.empty) = [])"


section \<open>Splitting and joining\<close>

lemma split_acc_nonempty: "split_acc sep cur s \<noteq> []"
  by (induction s arbitrary: cur) simp_all

lemma join_split_acc: "join sep (split_acc sep cur s) = cur @ s"
proof (induction s arbitrary: cur)
  case Nil
  show ?case by simp
next
  case (Cons x xs)
  have ne: "split_acc sep [] xs \<noteq> []" by (rule split_acc_nonempty)
  show ?case
  proof (cases "x = sep")
    case True
    obtain l ls where eq: "split_acc sep [] xs = l # ls" using ne by (cases "split_acc sep [] xs") auto
    have "join sep (l # ls) = xs" using Cons.IH [of "[]"] eq by simp
    then show ?thesis using True eq by simp
  next
    case False
    then show ?thesis using Cons.IH [of "cur @ [x]"] by simp
  qed
qed

lemma join_split: "join sep (split sep s) = s"
  by (simp add: split_def join_split_acc)

lemma split_acc_join:
  "\<forall>l \<in> set (l0 # ls). sep \<notin> set l \<Longrightarrow> split_acc sep cur (join sep (l0 # ls)) = (cur @ l0) # ls"
proof (induction ls arbitrary: cur l0)
  case Nil
  then have "sep \<notin> set l0" by simp
  then have "split_acc sep cur l0 = [cur @ l0]"
    by (induction l0 arbitrary: cur) auto
  then show ?case by simp
next
  case (Cons l1 ls)
  have a: "sep \<notin> set l0" using Cons.prems by simp
  have step: "split_acc sep cur (l0 @ sep # rest) = (cur @ l0) # split_acc sep [] rest" for rest
    using a by (induction l0 arbitrary: cur) auto
  have "split_acc sep [] (join sep (l1 # ls)) = l1 # ls"
    using Cons.IH [of l1 "[]"] Cons.prems by simp
  then show ?case using step by simp
qed

lemma split_join:
  "ls \<noteq> [] \<Longrightarrow> \<forall>l \<in> set ls. sep \<notin> set l \<Longrightarrow> split sep (join sep ls) = ls"
  by (cases ls) (simp_all add: split_def split_acc_join del: join.simps)

lemma split_acc_no_sep:
  "sep \<notin> set cur \<Longrightarrow> \<forall>l \<in> set (split_acc sep cur s). sep \<notin> set l"
proof (induction s arbitrary: cur)
  case Nil
  then show ?case by simp
next
  case (Cons a s)
  have e: "\<forall>l \<in> set (split_acc sep [] s). sep \<notin> set l"
    using Cons.IH [of "[]"] by simp
  have "a \<noteq> sep \<Longrightarrow> \<forall>l \<in> set (split_acc sep (cur @ [a]) s). sep \<notin> set l"
    using Cons.IH [of "cur @ [a]"] Cons.prems by simp
  then show ?case using e Cons.prems by simp
qed

lemma split_no_sep: "l \<in> set (split sep s) \<Longrightarrow> sep \<notin> set l"
  using split_acc_no_sep [of sep "[]" s] by (simp add: split_def)

lemma split_nonempty: "split sep s \<noteq> []"
  by (simp add: split_def split_acc_nonempty)

section \<open>The loop is a map over the lines\<close>

lemma toggle_loop_map_aux:
  "toggle_loop e i lines = take i lines @ map (rewrite_line e) (drop i lines)"
proof (induction e i lines rule: toggle_loop.induct)
  case (1 e i lines)
  show ?case
  proof (cases "i < length lines")
    case True
    have "toggle_loop e i lines = toggle_loop e (i + 1) (lines[i := rewrite_line e (lines ! i)])"
      using True by (subst toggle_loop.simps) simp
    also have "\<dots> = take (i + 1) (lines[i := rewrite_line e (lines ! i)]) @
                     map (rewrite_line e) (drop (i + 1) (lines[i := rewrite_line e (lines ! i)]))"
      using "1.IH" True by simp
    also have "\<dots> = take i lines @ map (rewrite_line e) (drop i lines)"
      using True by (simp add: take_Suc_conv_app_nth Cons_nth_drop_Suc [symmetric])
    finally show ?thesis .
  next
    case False
    then show ?thesis by (subst toggle_loop.simps) simp
  qed
qed

lemma toggle_loop_map: "toggle_loop e 0 lines = map (rewrite_line e) lines"
  by (simp add: toggle_loop_map_aux)

section \<open>What the two patterns match\<close>

lemma rx_lit_aux:
  "rx (foldr (\<lambda>c r. Cat (Atom (Lit c)) r) cs Eps) (s, c) =
     (if prefix cs s then [(drop (length cs) s, c)] else [])"
proof (induction cs arbitrary: s)
  case Nil
  show ?case by simp
next
  case (Cons a cs)
  show ?case by (cases s) (simp_all add: Cons.IH)
qed

lemma rx_lit: "rx (lit w) (s, c) = (if prefix (js w) s then [(drop (length w) s, c)] else [])"
  by (simp add: lit_def rx_lit_aux js_def)

lemma rx_Cat_lit:
  "rx (Cat (lit w) r) (s, c) = (if prefix (js w) s then rx r (drop (length w) s, c) else [])"
  by (simp add: rx_lit)

lemma star_atom_length: "s' \<in> set (star_atom a s) \<Longrightarrow> length s' \<le> length s"
  by (induction s) (auto split: if_splits)

lemma star_close:
  "concat (map (\<lambda>s'. if prefix (js '']]'') s'
                       then [(drop 2 s', f (take (length s - length s') s))] else [])
               (star_atom Dot s)) =
   map (\<lambda>(l, r). (r, f l)) (closes s)"
proof (induction s arbitrary: f)
  case Nil
  show ?case by (simp add: js_def)
next
  case (Cons x xs)
  have tk: "s' \<in> set (star_atom Dot xs) \<Longrightarrow>
            take (Suc (length xs) - length s') (x # xs) = x # take (length xs - length s') xs" for s'
    using star_atom_length [of s' Dot xs] by (simp add: Suc_diff_le)
  have m: "concat (map (\<lambda>s'. if prefix (js '']]'') s'
                       then [(drop 2 s', f (take (length (x # xs) - length s') (x # xs)))] else [])
               (star_atom Dot xs)) =
           concat (map (\<lambda>s'. if prefix (js '']]'') s'
                       then [(drop 2 s', (\<lambda>l. f (x # l)) (take (length xs - length s') xs))] else [])
               (star_atom Dot xs))"
    by (rule arg_cong [where f = concat], rule map_cong) (simp_all add: tk del: take_Suc_Cons)
  have ih: "concat (map (\<lambda>s'. if prefix (js '']]'') s'
                       then [(drop 2 s', f (take (length (x # xs) - length s') (x # xs)))] else [])
               (star_atom Dot xs)) = map (\<lambda>(l, r). (r, f (x # l))) (closes xs)"
    unfolding m using Cons.IH [of "\<lambda>l. f (x # l)"] by simp
  show ?case
  proof (cases "is_line_terminator x")
    case True
    then show ?thesis by simp
  next
    case False
    have "concat (map (\<lambda>s'. if prefix (js '']]'') s'
                       then [(drop 2 s', f (take (length (x # xs) - length s') (x # xs)))] else [])
               (star_atom Dot (x # xs))) =
          map (\<lambda>(l, r). (r, f (x # l))) (closes xs) @
          (if prefix (js '']]'') (x # xs) then [(drop 2 (x # xs), f [])] else [])"
      using False ih by simp
    then show ?thesis using False by (simp add: case_prod_unfold comp_def)
  qed
qed

lemma rx_tail_replace:
  "rx (Cat (Grp n (Star Dot)) (lit '']]'')) (s, c) = map (\<lambda>(l, r). (r, c(n \<mapsto> l))) (closes s)"
proof -
  have "rx (Cat (Grp n (Star Dot)) (lit '']]'')) (s, c) =
        concat (map (\<lambda>s'. if prefix (js '']]'') s'
                       then [(drop 2 s', c(n \<mapsto> take (length s - length s') s))] else [])
               (star_atom Dot s))"
    by (simp add: rx_lit comp_def numeral_2_eq_2 cong: if_cong)
  then show ?thesis
    using star_close [where f = "\<lambda>l. c(n \<mapsto> l)" and s = s] by simp
qed

lemma concat_map_fst_cong:
  "map fst xs = map fst ys \<Longrightarrow>
   (\<And>s c c'. map fst (f (s, c)) = map fst (g (s, c'))) \<Longrightarrow>
   map fst (concat (map f xs)) = map fst (concat (map g ys))"
proof (induction xs arbitrary: ys)
  case Nil
  then show ?case by simp
next
  case (Cons x xs)
  then obtain y ys' where ys: "ys = y # ys'" by (cases ys) auto
  obtain s c where x: "x = (s, c)" by (cases x)
  obtain s' c' where y: "y = (s', c')" by (cases y)
  have "s = s'" using Cons.prems(1) ys x y by simp
  then have h: "map fst (f x) = map fst (g y)" using Cons.prems(2) x y by simp
  have t: "map fst (concat (map f xs)) = map fst (concat (map g ys'))"
    using Cons.IH [of ys'] Cons.prems ys by simp
  show ?case using h t ys by simp
qed

lemma rx_strip: "map fst (rx (strip r) (s, c)) = map fst (rx r (s, c'))"
proof (induction r arbitrary: s c c')
  case (Cat r1 r2)
  show ?case
    using concat_map_fst_cong [of "rx (strip r1) (s, c)" "rx r1 (s, c')" "rx (strip r2)" "rx r2"]
      Cat.IH by simp
next
  case (Grp n r)
  have a: "map fst (rx (Grp n r) (s, c')) = map fst (rx r (s, c'))"
    by (auto simp: split_beta)
  show ?case unfolding strip.simps a by (rule Grp.IH)
next
  case (Atom a)
  show ?case by (cases s) simp_all
qed (simp_all add: comp_def)

lemma strip_lit: "strip (lit w) = lit w"
proof -
  have "strip (foldr (\<lambda>c r. Cat (Atom (Lit c)) r) cs Eps) = foldr (\<lambda>c r. Cat (Atom (Lit c)) r) cs Eps" for cs
    by (induction cs) simp_all
  then show ?thesis by (simp add: lit_def)
qed

lemma checklist_test_strip: "checklist_test = strip checklist_replace"
  by (simp add: checklist_test_def checklist_replace_def strip_lit)

lemma search_strip_None: "search (strip r) pre s = None \<longleftrightarrow> search r pre' s = None"
proof (induction s arbitrary: pre pre')
  case Nil
  have "map fst (rx (strip r) ([], Map.empty)) = map fst (rx r ([], Map.empty))" by (rule rx_strip)
  then show ?case by (auto simp: search.simps [of _ _ "[]"] split: list.splits)
next
  case (Cons x xs)
  have "map fst (rx (strip r) (x # xs, Map.empty)) = map fst (rx r (x # xs, Map.empty))"
    by (rule rx_strip)
  then show ?case using Cons.IH [of "pre @ [x]" "pre' @ [x]"]
    by (auto simp: search.simps [of _ _ "x # xs"] split: list.splits)
qed

lemma exec_test_iff: "exec checklist_test l = None \<longleftrightarrow> exec checklist_replace l = None"
  by (simp add: exec_def checklist_test_strip search_strip_None [of _ "[]" _ "[]"])

lemma rx_Cat_grp_atom:
  "rx (Cat (Grp n (Atom a)) r) (s, c) =
     (case s of [] \<Rightarrow> [] | x # xs \<Rightarrow> if atom_ok a x then rx r (xs, c(n \<mapsto> [x])) else [])"
  by (cases s) simp_all

lemma rx_Cat_opt_grp_atom:
  "rx (Cat (Opt (Grp n (Atom a))) r) (s, c) =
     (case s of [] \<Rightarrow> rx r ([], c)
      | x # xs \<Rightarrow> if atom_ok a x then rx r (xs, c(n \<mapsto> [x])) @ rx r (s, c) else rx r (s, c))"
  by (cases s) simp_all

lemma rx_replace_hdr:
  assumes "c \<in> set (js ''x '')"
  shows "rx checklist_replace (hdr c b @ u, Map.empty) =
         map (\<lambda>(l, r). (r, caps c b l)) (closes u)"
  using assms unfolding checklist_replace_def
  by (cases b)
     (simp_all add: rx_Cat_lit rx_Cat_grp_atom rx_Cat_opt_grp_atom rx_tail_replace hdr_def caps_def
        js_def del: rx.simps)

lemma rx_replace_nonempty:
  assumes "rx checklist_replace (s, Map.empty) \<noteq> []"
  shows "\<exists>c b u. c \<in> set (js ''x '') \<and> s = hdr c b @ u"
proof -
  let ?R1 = "Cat (Grp 1 (Atom (OneOf (js ''x '')))) (Cat (lit ''] '')
       (Cat (Opt (Grp 2 (Atom (Lit 0x21)))) (Cat (lit ''[['') (Cat (Grp 3 (Star Dot)) (lit '']]'')))))"
  let ?R3 = "Cat (Opt (Grp 2 (Atom (Lit 0x21)))) (Cat (lit ''[['') (Cat (Grp 3 (Star Dot)) (lit '']]'')))"
  let ?R4 = "Cat (lit ''[['') (Cat (Grp 3 (Star Dot)) (lit '']]''))"
  have p1: "prefix (js ''- ['') s" and r1: "rx ?R1 (drop 3 s, Map.empty) \<noteq> []"
    using assms unfolding checklist_replace_def
    by (simp_all add: rx_Cat_lit numeral_3_eq_3 numeral_2_eq_2 del: rx.simps split: if_splits)
  obtain s1 where s: "s = js ''- ['' @ s1" using p1 by (auto simp: prefix_def)
  have s1: "drop 3 s = s1" using s by (simp add: js_def)
  obtain c s2 where s1c: "s1 = c # s2" and cok: "c \<in> set (js ''x '')"
    and r2: "rx (Cat (lit ''] '') ?R3) (s2, [1 \<mapsto> [c]]) \<noteq> []"
    using r1 unfolding s1 by (cases s1) (auto simp: rx_Cat_grp_atom simp del: rx.simps split: if_splits)
  have p2: "prefix (js ''] '') s2" and r3: "rx ?R3 (drop 2 s2, [1 \<mapsto> [c]]) \<noteq> []"
    using r2 by (simp_all add: rx_Cat_lit numeral_3_eq_3 numeral_2_eq_2 del: rx.simps split: if_splits)
  obtain s3 where s2: "s2 = js ''] '' @ s3" using p2 by (auto simp: prefix_def)
  have s3: "drop 2 s2 = s3" using s2 by (simp add: js_def)
  have "(\<exists>u. s3 = js ''![['' @ u) \<or> (\<exists>u. s3 = js ''[['' @ u)"
  proof (cases s3)
    case Nil
    then show ?thesis using r3 unfolding s3 by (simp add: rx_Cat_opt_grp_atom rx_Cat_lit js_def del: rx.simps)
  next
    case (Cons y t)
    show ?thesis
    proof (cases "y = 0x21")
      case True
      then have "prefix (js ''[['') t" using r3 unfolding s3 Cons
        by (simp add: rx_Cat_opt_grp_atom rx_Cat_lit js_def del: rx.simps split: if_splits)
      then show ?thesis using True Cons by (auto simp: prefix_def js_def)
    next
      case False
      then have "prefix (js ''[['') s3" using r3 unfolding s3 Cons
        by (simp add: rx_Cat_opt_grp_atom rx_Cat_lit del: rx.simps split: if_splits)
      then show ?thesis by (auto simp: prefix_def)
    qed
  qed
  then show ?thesis
  proof
    assume "\<exists>u. s3 = js ''![['' @ u"
    then obtain u where "s3 = js ''![['' @ u" ..
    then have "s = hdr c True @ u" using s s1c s2 by (simp add: hdr_def js_def)
    then show ?thesis using cok by blast
  next
    assume "\<exists>u. s3 = js ''[['' @ u"
    then obtain u where "s3 = js ''[['' @ u" ..
    then have "s = hdr c False @ u" using s s1c s2 by (simp add: hdr_def js_def)
    then show ?thesis using cok by blast
  qed
qed

subsection \<open>Closing brackets\<close>

lemma closes_split:
  "(l, r) \<in> set (closes u) \<Longrightarrow> u = l @ js '']]'' @ r \<and> (\<forall>x \<in> set l. \<not> is_line_terminator x)"
proof (induction u arbitrary: l)
  case Nil
  then show ?case by simp
next
  case (Cons x xs)
  from Cons.prems consider
    (inner) l' where "\<not> is_line_terminator x" "l = x # l'" "(l', r) \<in> set (closes xs)"
    | (here) "prefix (js '']]'') (x # xs)" "l = []" "r = drop 2 (x # xs)"
    by (auto split: if_splits)
  then show ?case
  proof cases
    case inner
    then show ?thesis using Cons.IH [of l'] by simp
  next
    case here
    then show ?thesis by (auto simp: prefix_def js_def)
  qed
qed

lemma closes_nonempty_Cons:
  "closes (x # xs) \<noteq> [] \<longleftrightarrow>
     (\<not> is_line_terminator x \<and> closes xs \<noteq> []) \<or> prefix (js '']]'') (x # xs)"
  by simp

lemma closes_append_nonempty:
  "\<forall>x \<in> set v. \<not> is_line_terminator x \<Longrightarrow> closes u \<noteq> [] \<Longrightarrow> closes (v @ u) \<noteq> []"
  by (induction v) (simp_all del: closes.simps add: closes_nonempty_Cons)

lemma closes_complete:
  "\<forall>x \<in> set l. \<not> is_line_terminator x \<Longrightarrow> closes (l @ js '']]'' @ r) \<noteq> []"
proof -
  have "closes (js '']]'' @ r) \<noteq> []" by (simp add: js_def)
  then show "\<forall>x \<in> set l. \<not> is_line_terminator x \<Longrightarrow> closes (l @ js '']]'' @ r) \<noteq> []"
    using closes_append_nonempty [of l "js '']]'' @ r"] by simp
qed

lemma closes_context:
  "closes (a # t) \<noteq> [] \<Longrightarrow> closes (a # t') \<noteq> [] \<Longrightarrow>
   (closes (v @ a # t) \<noteq> []) = (closes (v @ a # t') \<noteq> [])"
proof (induction v)
  case Nil
  then show ?case by simp
next
  case (Cons x v)
  have pre: "prefix (js '']]'') (x # v @ a # t) = prefix (js '']]'') (x # v @ a # t')"
    by (cases v) (simp_all add: js_def)
  have "(closes ((x # v) @ a # t) \<noteq> []) =
        ((\<not> is_line_terminator x \<and> closes (v @ a # t) \<noteq> []) \<or> prefix (js '']]'') (x # v @ a # t))"
    using closes_nonempty_Cons [of x "v @ a # t"] by simp
  also have "\<dots> = ((\<not> is_line_terminator x \<and> closes (v @ a # t') \<noteq> []) \<or>
                    prefix (js '']]'') (x # v @ a # t'))"
    using Cons pre by simp
  also have "\<dots> = (closes ((x # v) @ a # t') \<noteq> [])"
    using closes_nonempty_Cons [of x "v @ a # t'"] by simp
  finally show ?case .
qed

lemma prefix_before_marker:
  assumes "prefix (h # H) (p @ a # t)" and "p \<noteq> []" and "a \<notin> set H"
  shows "prefix (h # H) p"
proof -
  from assms(1) consider "prefix (h # H) p" | us where "h # H = p @ us" "prefix us (a # t)"
    by (auto simp: prefix_append)
  then show ?thesis
  proof cases
    case 1
    then show ?thesis .
  next
    case 2
    obtain p' where p: "p = h # p'" and H: "H = p' @ us"
      using 2(1) assms(2) by (cases p) auto
    show ?thesis
    proof (cases us)
      case Nil
      then show ?thesis using 2(1) by simp
    next
      case (Cons y ys)
      then have "y = a" using 2(2) by simp
      then have "a \<in> set H" using H Cons by simp
      then show ?thesis using assms(3) by simp
    qed
  qed
qed

subsection \<open>The leftmost match\<close>

lemma search_Some:
  "search r pre s = Some m \<Longrightarrow>
   \<exists>p q s' c ms. s = p @ q \<and> rx r (q, Map.empty) = (s', c) # ms \<and>
     m = \<lparr>before = pre @ p, matched = take (length q - length s') q, groups = c, after = s'\<rparr> \<and>
     (\<forall>p1 p2. p = p1 @ p2 \<and> p2 \<noteq> [] \<longrightarrow> rx r (p2 @ q, Map.empty) = [])"
proof (induction s arbitrary: pre)
  case Nil
  then obtain s' c ms where "rx r ([], Map.empty) = (s', c) # ms"
    and "m = \<lparr>before = pre, matched = take (length ([]::jsstring) - length s') [], groups = c, after = s'\<rparr>"
    by (auto simp: search.simps [of r pre "[]"] split: list.splits)
  then show ?case
    by (intro exI [of _ "[]::jsstring"] exI [of _ "[]::jsstring"] exI [of _ s'] exI [of _ c]
          exI [of _ ms]) simp
next
  case (Cons x xs)
  show ?case
  proof (cases "rx r (x # xs, Map.empty)")
    case Nil
    then have "search r (pre @ [x]) xs = Some m"
      using Cons.prems by (simp add: search.simps [of r pre "x # xs"])
    from Cons.IH [OF this] obtain p q s' c ms where
      a: "xs = p @ q" "rx r (q, Map.empty) = (s', c) # ms"
      "m = \<lparr>before = (pre @ [x]) @ p, matched = take (length q - length s') q, groups = c, after = s'\<rparr>"
      "\<forall>p1 p2. p = p1 @ p2 \<and> p2 \<noteq> [] \<longrightarrow> rx r (p2 @ q, Map.empty) = []"
      by blast
    have "\<forall>p1 p2. x # p = p1 @ p2 \<and> p2 \<noteq> [] \<longrightarrow> rx r (p2 @ q, Map.empty) = []"
    proof (intro allI impI)
      fix p1 p2 assume h: "x # p = p1 @ p2 \<and> p2 \<noteq> []"
      show "rx r (p2 @ q, Map.empty) = []"
      proof (cases p1)
        case Nil
        then show ?thesis using h a(1) \<open>rx r (x # xs, Map.empty) = []\<close> by auto
      next
        case (Cons y ys)
        then have "p = ys @ p2" using h by simp
        then show ?thesis using a(4) h by blast
      qed
    qed
    then show ?thesis using a
      by (intro exI [of _ "x # p"] exI [of _ q] exI [of _ s'] exI [of _ c] exI [of _ ms]) simp
  next
    case (Cons st ms)
    obtain s' c where st: "st = (s', c)" by (cases st)
    have "m = \<lparr>before = pre, matched = take (length (x # xs) - length s') (x # xs), groups = c, after = s'\<rparr>"
      using Cons.prems Cons st by (simp add: search.simps [of r pre "x # xs"])
    then show ?thesis using Cons st
      by (intro exI [of _ "[]::jsstring"] exI [of _ "x # xs"] exI [of _ s'] exI [of _ c]
            exI [of _ ms]) simp
  qed
qed

lemma search_intro:
  "rx r (q, Map.empty) = (s', c) # ms \<Longrightarrow>
   (\<forall>p1 p2. p = p1 @ p2 \<and> p2 \<noteq> [] \<longrightarrow> rx r (p2 @ q, Map.empty) = []) \<Longrightarrow>
   search r pre (p @ q) =
     Some \<lparr>before = pre @ p, matched = take (length q - length s') q, groups = c, after = s'\<rparr>"
proof (induction p arbitrary: pre)
  case Nil
  then show ?case by (simp add: search.simps [of r pre q])
next
  case (Cons x p)
  have "rx r ((x # p) @ q, Map.empty) = []" using Cons.prems(2) by blast
  then have "search r pre ((x # p) @ q) = search r (pre @ [x]) (p @ q)"
    by (simp add: search.simps [of r pre "x # p @ q"])
  moreover have "\<forall>p1 p2. p = p1 @ p2 \<and> p2 \<noteq> [] \<longrightarrow> rx r (p2 @ q, Map.empty) = []"
    using Cons.prems(2) by (metis append_Cons)
  ultimately show ?case using Cons.IH [OF Cons.prems(1), of "pre @ [x]"] by simp
qed

lemma search_None_iff:
  "search r pre s = None \<longleftrightarrow> (\<forall>p q. s = p @ q \<longrightarrow> rx r (q, Map.empty) = [])"
proof (induction s arbitrary: pre)
  case Nil
  show ?case by (auto simp: search.simps [of r pre "[]"] split: list.splits)
next
  case (Cons x xs)
  have "(\<forall>p q. x # xs = p @ q \<longrightarrow> rx r (q, Map.empty) = []) \<longleftrightarrow>
        rx r (x # xs, Map.empty) = [] \<and> (\<forall>p q. xs = p @ q \<longrightarrow> rx r (q, Map.empty) = [])"
    (is "?L \<longleftrightarrow> ?R")
  proof
    assume l: ?L
    have "rx r (x # xs, Map.empty) = []" using l by (metis append_Nil)
    moreover have "\<forall>p q. xs = p @ q \<longrightarrow> rx r (q, Map.empty) = []" using l by (metis append_Cons)
    ultimately show ?R by simp
  next
    assume r: ?R
    show ?L
    proof (intro allI impI)
      fix p q assume "x # xs = p @ q"
      then show "rx r (q, Map.empty) = []" using r by (cases p) auto
    qed
  qed
  then show ?case using Cons.IH [of "pre @ [x]"]
    by (auto simp: search.simps [of r pre "x # xs"] split: list.splits)
qed

section \<open>Rewriting one line\<close>

lemma exec_replace_Some:
  assumes "exec checklist_replace l = Some m"
  shows "\<exists>p c b link r. parses l p c b link r \<and>
           m = \<lparr>before = p, matched = hdr c b @ link @ js '']]'', groups = caps c b link, after = r\<rparr>"
proof -
  from assms obtain p q s' cp ms where
    l: "l = p @ q" and rq: "rx checklist_replace (q, Map.empty) = (s', cp) # ms"
    and m: "m = \<lparr>before = [] @ p, matched = take (length q - length s') q, groups = cp, after = s'\<rparr>"
    and early: "\<forall>p1 p2. p = p1 @ p2 \<and> p2 \<noteq> [] \<longrightarrow> rx checklist_replace (p2 @ q, Map.empty) = []"
    unfolding exec_def using search_Some [of checklist_replace "[]" l m] by blast
  have "rx checklist_replace (q, Map.empty) \<noteq> []" using rq by simp
  then obtain c b u where cok: "c \<in> set (js ''x '')" and q: "q = hdr c b @ u"
    using rx_replace_nonempty by blast
  have "map (\<lambda>(l, r). (r, caps c b l)) (closes u) = (s', cp) # ms"
    using rq rx_replace_hdr [OF cok, of b u] q by simp
  then obtain link r cs where cl: "closes u = (link, r) # cs" and s': "s' = r" and cp: "cp = caps c b link"
    by (cases "closes u") auto
  have u: "u = link @ js '']]'' @ r" using closes_split [of link r u] cl by simp
  have "take (length q - length s') q = hdr c b @ link @ js '']]''"
    unfolding q u s' by simp
  then have "m = \<lparr>before = p, matched = hdr c b @ link @ js '']]'', groups = caps c b link, after = r\<rparr>"
    using m s' cp by simp
  moreover have "parses l p c b link r"
    unfolding parses_def using l q u cok cl early by auto
  ultimately show ?thesis by blast
qed

lemma exec_replace_parses:
  assumes "parses l p c b link r"
  shows "exec checklist_replace l =
         Some \<lparr>before = p, matched = hdr c b @ link @ js '']]'', groups = caps c b link, after = r\<rparr>"
proof -
  let ?q = "hdr c b @ link @ js '']]'' @ r"
  from assms obtain ms where l: "l = p @ ?q" and cok: "c \<in> set (js ''x '')"
    and cl: "closes (link @ js '']]'' @ r) = (link, r) # ms"
    and early: "\<forall>p1 p2. p = p1 @ p2 \<and> p2 \<noteq> [] \<longrightarrow> rx checklist_replace (p2 @ ?q, Map.empty) = []"
    unfolding parses_def by blast
  have rq: "rx checklist_replace (?q, Map.empty) =
            (r, caps c b link) # map (\<lambda>(l, r). (r, caps c b l)) ms"
    using rx_replace_hdr [OF cok, of b "link @ js '']]'' @ r"] cl by simp
  have "search checklist_replace [] (p @ ?q) =
        Some \<lparr>before = [] @ p, matched = take (length ?q - length r) ?q, groups = caps c b link, after = r\<rparr>"
    using search_intro [OF rq early] .
  moreover have "take (length ?q - length r) ?q = hdr c b @ link @ js '']]''" by simp
  ultimately show ?thesis unfolding exec_def l by simp
qed

lemma hdr_no_terminator:
  "c \<in> set (js ''x '') \<Longrightarrow> \<forall>x \<in> set (hdr c b). \<not> is_line_terminator x"
  by (auto simp: hdr_def js_def is_line_terminator_def)

lemma hdr_shape: "c \<in> set (js ''x '') \<Longrightarrow> \<exists>H. hdr c b = 0x2D # H \<and> 0x2D \<notin> set H"
  by (auto simp: hdr_def js_def)

lemma rx_replace_context:
  assumes cok: "c \<in> set (js ''x '')" and cu: "closes u \<noteq> []" and p2: "p2 \<noteq> []"
    and ne: "rx checklist_replace (p2 @ hdr c b @ u, Map.empty) \<noteq> []"
  shows "rx checklist_replace (p2 @ hdr c b' @ u, Map.empty) \<noteq> []"
proof -
  obtain c1 b1 u1 where c1: "c1 \<in> set (js ''x '')" and eq: "p2 @ hdr c b @ u = hdr c1 b1 @ u1"
    using rx_replace_nonempty [OF ne] by blast
  have cl1: "closes u1 \<noteq> []"
    using ne rx_replace_hdr [OF c1, of b1 u1] eq by auto
  obtain H1 where H1: "hdr c1 b1 = 0x2D # H1" and nd: "0x2D \<notin> set H1"
    using hdr_shape [OF c1] by blast
  obtain Hb where Hb: "hdr c b = 0x2D # Hb" using hdr_shape [OF cok] by blast
  obtain Hb' where Hb': "hdr c b' = 0x2D # Hb'" using hdr_shape [OF cok] by blast
  have "prefix (0x2D # H1) (p2 @ 0x2D # (Hb @ u))"
    using eq H1 Hb by (simp add: prefix_def)
  then have "prefix (0x2D # H1) p2"
    by (rule prefix_before_marker [OF _ p2 nd])
  then obtain v where v: "p2 = hdr c1 b1 @ v"
    using H1 by (auto simp: prefix_def)
  have u1: "u1 = v @ hdr c b @ u" using eq v by simp
  have hc: "closes (hdr c b0 @ u) \<noteq> []" for b0
    using closes_append_nonempty [OF hdr_no_terminator [OF cok] cu] .
  have "closes (0x2D # (Hb @ u)) \<noteq> []" using hc [of b] Hb by simp
  moreover have "closes (0x2D # (Hb' @ u)) \<noteq> []" using hc [of b'] Hb' by simp
  moreover have "closes (v @ 0x2D # (Hb @ u)) \<noteq> []" using cl1 u1 Hb by simp
  ultimately have "closes (v @ 0x2D # (Hb' @ u)) \<noteq> []"
    using closes_context [of "0x2D" "Hb @ u" "Hb' @ u" v] by blast
  then have "closes (v @ hdr c b' @ u) \<noteq> []" using Hb' by simp
  then have "rx checklist_replace (hdr c1 b1 @ (v @ hdr c b' @ u), Map.empty) \<noteq> []"
    using rx_replace_hdr [OF c1, of b1 "v @ hdr c b' @ u"] by simp
  then show ?thesis using v by simp
qed

lemma parses_flip:
  assumes "parses l p c b link r"
  shows "parses (p @ hdr c b' @ link @ js '']]'' @ r) p c b' link r"
proof -
  let ?u = "link @ js '']]'' @ r"
  from assms obtain ms where cok: "c \<in> set (js ''x '')"
    and cl: "closes ?u = (link, r) # ms"
    and early: "\<forall>p1 p2. p = p1 @ p2 \<and> p2 \<noteq> [] \<longrightarrow>
                  rx checklist_replace (p2 @ hdr c b @ ?u, Map.empty) = []"
    unfolding parses_def by blast
  have cu: "closes ?u \<noteq> []" using cl by simp
  have "\<forall>p1 p2. p = p1 @ p2 \<and> p2 \<noteq> [] \<longrightarrow>
          rx checklist_replace (p2 @ hdr c b' @ ?u, Map.empty) = []"
  proof (intro allI impI)
    fix p1 p2 assume h: "p = p1 @ p2 \<and> p2 \<noteq> []"
    then have z: "rx checklist_replace (p2 @ hdr c b @ ?u, Map.empty) = []" using early by blast
    show "rx checklist_replace (p2 @ hdr c b' @ ?u, Map.empty) = []"
    proof (rule ccontr)
      assume "rx checklist_replace (p2 @ hdr c b' @ ?u, Map.empty) \<noteq> []"
      then have "rx checklist_replace (p2 @ hdr c b @ ?u, Map.empty) \<noteq> []"
        using rx_replace_context [OF cok cu, of p2 b' b] h by blast
      then show False using z by simp
    qed
  qed
  then show ?thesis unfolding parses_def using cok cl by blast
qed

lemma emit_line_caps:
  "emit_line e \<lparr>before = p, matched = w, groups = caps c b link, after = r\<rparr> =
   hdr c e @ link @ js '']]''"
  by (simp add: emit_line_def group_text_def caps_def hdr_def js_def)

lemma rewrite_line_parses:
  assumes "parses l p c b link r"
  shows "rewrite_line e l = p @ hdr c e @ link @ js '']]'' @ r"
proof -
  have ex: "exec checklist_replace l =
         Some \<lparr>before = p, matched = hdr c b @ link @ js '']]'', groups = caps c b link, after = r\<rparr>"
    using exec_replace_parses [OF assms] .
  then have "exec checklist_test l \<noteq> None" using exec_test_iff [of l] by simp
  then show ?thesis
    unfolding rewrite_line_def replace_first_def using ex by (simp add: emit_line_caps)
qed

lemma rewrite_line_nomatch: "exec checklist_test l = None \<Longrightarrow> rewrite_line e l = l"
  by (simp add: rewrite_line_def)

lemma line_cases:
  obtains (nomatch) "exec checklist_test l = None"
  | (match) p c b link r where "parses l p c b link r"
proof (cases "exec checklist_replace l")
  case None
  then show ?thesis using nomatch exec_test_iff [of l] by simp
next
  case (Some m)
  then show ?thesis using exec_replace_Some match by blast
qed

lemma rewrite_rewrite: "rewrite_line e' (rewrite_line e l) = rewrite_line e' l"
proof (cases l rule: line_cases)
  case nomatch
  then show ?thesis by (simp add: rewrite_line_nomatch)
next
  case (match p c b link r)
  have "rewrite_line e' (p @ hdr c e @ link @ js '']]'' @ r) = p @ hdr c e' @ link @ js '']]'' @ r"
    using rewrite_line_parses [OF parses_flip [OF match, of e], of e'] .
  then show ?thesis using rewrite_line_parses [OF match] by simp
qed

section \<open>The whole document\<close>

lemma toggleEmbeds_eq:
  "toggleEmbeds D E = (join 0x0A (map (rewrite_line E) (split 0x0A D)), \<not> E)"
  by (simp add: toggleEmbeds_def toggle_editorCheckCallback_def toggle_run_def toggle_loop_map Let_def)

lemma rewrite_line_set:
  "set (rewrite_line e l) \<subseteq> set l \<union> set (js ''- [] ![x'')"
proof (cases l rule: line_cases)
  case nomatch
  then show ?thesis by (simp add: rewrite_line_nomatch)
next
  case (match p c b link r)
  have l: "l = p @ hdr c b @ link @ js '']]'' @ r" and cok: "c \<in> set (js ''x '')"
    using match by (simp_all add: parses_def)
  have h: "set (hdr c e) \<subseteq> set (js ''- [] ![x'')"
    using cok by (auto simp: hdr_def js_def)
  have b: "set (js '']]'') \<subseteq> set (js ''- [] ![x'')"
    by (simp add: js_def)
  have "set (rewrite_line e l) = set p \<union> set (hdr c e) \<union> set link \<union> set (js '']]'') \<union> set r"
    by (simp add: rewrite_line_parses [OF match] Un_assoc)
  moreover have "set p \<union> set link \<union> set r \<subseteq> set l"
    by (subst l) auto
  ultimately show ?thesis using h b by blast
qed

lemma rewrite_line_no_newline: "0x0A \<notin> set l \<Longrightarrow> 0x0A \<notin> set (rewrite_line e l)"
proof -
  have "(0x0A::jschar) \<notin> set (js ''- [] ![x'')" by (simp add: js_def)
  then show "0x0A \<notin> set l \<Longrightarrow> 0x0A \<notin> set (rewrite_line e l)"
    using rewrite_line_set [of e l] by blast
qed

lemma split_toggleEmbeds:
  "split 0x0A (fst (toggleEmbeds D E)) = map (rewrite_line E) (split 0x0A D)"
proof -
  have "\<forall>l \<in> set (map (rewrite_line E) (split 0x0A D)). 0x0A \<notin> set l"
    using split_no_sep [of _ "0x0A" D] rewrite_line_no_newline by auto
  moreover have "map (rewrite_line E) (split 0x0A D) \<noteq> []"
    using split_nonempty [of "0x0A" D] by simp
  ultimately show ?thesis
    using split_join [of "map (rewrite_line E) (split 0x0A D)" "0x0A"]
    by (simp add: toggleEmbeds_eq)
qed

lemma toggle_twice_text:
  "fst (toggleEmbeds (fst (toggleEmbeds D E)) E') = fst (toggleEmbeds D E')"
proof -
  have "fst (toggleEmbeds (fst (toggleEmbeds D E)) E') =
        join 0x0A (map (rewrite_line E') (split 0x0A (fst (toggleEmbeds D E))))"
    by (simp add: toggleEmbeds_eq)
  also have "\<dots> = join 0x0A (map (rewrite_line E') (map (rewrite_line E) (split 0x0A D)))"
    by (simp only: split_toggleEmbeds)
  also have "\<dots> = join 0x0A (map (rewrite_line E') (split 0x0A D))"
    by (simp add: rewrite_rewrite comp_def)
  finally show ?thesis by (simp add: toggleEmbeds_eq)
qed

lemma hdr_expand:
  "hdr c b = js ''- ['' @ [c] @ js ''] '' @ (if b then js ''!'' else []) @ js ''[[''"
  by (simp add: hdr_def)

section \<open>File names\<close>

lemma search_atom_None:
  "search (Atom a) pre s = None \<longleftrightarrow> (\<forall>x \<in> set s. \<not> atom_ok a x)"
proof (induction s arbitrary: pre)
  case Nil
  show ?case by (simp add: search.simps [of _ pre "[]"])
next
  case (Cons x xs)
  show ?case using Cons.IH [of "pre @ [x]"] by (simp add: search.simps [of _ pre "x # xs"])
qed

lemma isValidFileName_iff: "isValidFileName s \<longleftrightarrow> set s \<inter> set forbidden_chars = {}"
  by (auto simp: isValidFileName_def exec_def search_atom_None)

lemma valid_My_Note: "isValidFileName (js ''My Note'')"
  by code_simp

lemma invalid_Bad_Name: "\<not> isValidFileName (js ''Bad/Name'')"
  by code_simp

lemma trim_My_Note: "trim (js ''My Note'') = js ''My Note''"
  by (simp add: trim_def trimmable_def is_white_space_def is_line_terminator_def js_def)

lemma trimmable_not_forbidden: "trimmable x \<Longrightarrow> x \<notin> set forbidden_chars"
  by (auto simp: trimmable_def is_white_space_def is_line_terminator_def forbidden_chars_def)

lemma trim_all_trimmable:
  assumes "\<forall>x \<in> set s. trimmable x"
  shows "trim s = []"
proof -
  have d: "dropWhile trimmable s = []" using assms by simp
  show ?thesis unfolding trim_def d by simp
qed

section \<open>The claims\<close>

text \<open>
  Claim C1, as the code has it. For the three-line document \<^verbatim>\<open>- [ ] [[Alpha]]\<close>,
  \<^verbatim>\<open>- [x] ![[Beta]]\<close>, \<^verbatim>\<open>- plain text\<close> and the flag true, the transform gives
  \<^verbatim>\<open>- [ ] ![[Alpha]]\<close>, \<^verbatim>\<open>- [x] ![[Beta]]\<close>, \<^verbatim>\<open>- plain text\<close> and the flag false:
  with the flag true every matching line is written with the exclamation mark, so the Beta
  line keeps it.
\<close>

theorem C1_scenario:
  "toggleEmbeds (js ''- [ ] [[Alpha]]\<newline>- [x] ![[Beta]]\<newline>- plain text'') True =
     (js ''- [ ] ![[Alpha]]\<newline>- [x] ![[Beta]]\<newline>- plain text'', False)"
  by code_simp

text \<open>
  The result that claim C1 states, in which the Beta line has lost its exclamation mark, is
  not what the transform returns.
\<close>

theorem C1_counterexample:
  "toggleEmbeds (js ''- [ ] [[Alpha]]\<newline>- [x] ![[Beta]]\<newline>- plain text'') True \<noteq>
     (js ''- [ ] ![[Alpha]]\<newline>- [x] [[Beta]]\<newline>- plain text'', False)"
  by code_simp

text \<open>
  Claim C2, as the code has it. For every text \<open>D\<close> and flag \<open>E\<close>, toggling twice in a
  row gives the flag \<open>E\<close> again, and the text that a single pass with the flag \<open>\<not> E\<close>
  gives from \<open>D\<close>: every matching line ends in the form of the second pass, whatever form
  it had in \<open>D\<close>.
\<close>

theorem C2_two_toggles:
  "toggleEmbeds (fst (toggleEmbeds D E)) (snd (toggleEmbeds D E)) = (fst (toggleEmbeds D (\<not> E)), E)"
proof -
  have s: "snd (toggleEmbeds D E) = (\<not> E)" by (simp add: toggleEmbeds_eq)
  have "snd (toggleEmbeds (fst (toggleEmbeds D E)) (\<not> E)) = E" by (simp add: toggleEmbeds_eq)
  then show ?thesis unfolding s using toggle_twice_text [of D E "\<not> E"]
    by (simp add: prod_eq_iff)
qed

text \<open>
  The text does not come back in general: from \<^verbatim>\<open>- [ ] [[A]]\<close> with the flag false, the
  first pass leaves the line as it is and the second one adds the exclamation mark.
\<close>

theorem C2_counterexample:
  "fst (toggleEmbeds (fst (toggleEmbeds (js ''- [ ] [[A]]'') False))
                     (snd (toggleEmbeds (js ''- [ ] [[A]]'') False))) \<noteq> js ''- [ ] [[A]]''"
  by code_simp

text \<open>
  Claim C3. Let line \<open>i\<close> of the document match the pattern. Then the replacing pattern
  finds a match \<open>m\<close> in it whose first group is one character \<open>c\<close>, \<^verbatim>\<open>x\<close> or a space
  (the checked state), and whose third group is \<open>link\<close> (the target); the line is the text
  before the match, \<^verbatim>\<open>- [\<close>, \<open>c\<close>, \<^verbatim>\<open>] \<close>, an exclamation mark or nothing,
  \<^verbatim>\<open>[[\<close>, \<open>link\<close>, \<^verbatim>\<open>]]\<close> and the text after the match; and line \<open>i\<close> of the
  transformed document is the same with the same \<open>c\<close> and \<open>link\<close>, and with the exclamation
  mark before the opening brackets exactly when the flag is true, whether or not the line
  had one.
\<close>

theorem C3_matching_lines:
  assumes "i < length (split 0x0A D)" and "exec checklist_test (split 0x0A D ! i) \<noteq> None"
  shows "\<exists>m c bang link.
           exec checklist_replace (split 0x0A D ! i) = Some m \<and>
           groups m 1 = Some [c] \<and> groups m 3 = Some link \<and>
           (c = 0x78 \<or> c = 0x20) \<and> (bang = [] \<or> bang = js ''!'') \<and>
           split 0x0A D ! i =
             before m @ js ''- ['' @ [c] @ js ''] '' @ bang @ js ''[['' @ link @ js '']]'' @ after m \<and>
           split 0x0A (fst (toggleEmbeds D E)) ! i =
             before m @ js ''- ['' @ [c] @ js ''] '' @ (if E then js ''!'' else []) @
               js ''[['' @ link @ js '']]'' @ after m"
proof -
  let ?l = "split 0x0A D ! i"
  obtain p c b link r where ps: "parses ?l p c b link r"
    using assms(2) by (cases ?l rule: line_cases) auto
  let ?m = "\<lparr>before = p, matched = hdr c b @ link @ js '']]'', groups = caps c b link, after = r\<rparr>"
  have ex: "exec checklist_replace ?l = Some ?m" using exec_replace_parses [OF ps] .
  have cok: "c = 0x78 \<or> c = 0x20" using ps by (simp add: parses_def js_def)
  have g1: "groups ?m 1 = Some [c]" and g3: "groups ?m 3 = Some link"
    by (simp_all add: caps_def)
  have l: "?l = before ?m @ js ''- ['' @ [c] @ js ''] '' @ (if b then js ''!'' else []) @
                  js ''[['' @ link @ js '']]'' @ after ?m"
    using ps by (simp add: parses_def hdr_expand)
  have out: "split 0x0A (fst (toggleEmbeds D E)) ! i =
             before ?m @ js ''- ['' @ [c] @ js ''] '' @ (if E then js ''!'' else []) @
               js ''[['' @ link @ js '']]'' @ after ?m"
    using assms(1) rewrite_line_parses [OF ps, of E] by (simp add: split_toggleEmbeds hdr_expand)
  have bg: "(if b then js ''!'' else []) = [] \<or> (if b then js ''!'' else []) = js ''!''" by simp
  show ?thesis
    using ex g1 g3 cok bg l out
    by (intro exI [of _ ?m] exI [of _ c] exI [of _ "if b then js ''!'' else []"] exI [of _ link])
       (intro conjI)
qed

text \<open>The line \<^verbatim>\<open>- [x] ![[Beta]]\<close> under the flag false.\<close>

theorem C3_witness:
  "0 < length (split 0x0A (js ''- [x] ![[Beta]]'')) \<and>
   exec checklist_test (split 0x0A (js ''- [x] ![[Beta]]'') ! 0) \<noteq> None \<and>
   (\<exists>m c bang link.
           exec checklist_replace (split 0x0A (js ''- [x] ![[Beta]]'') ! 0) = Some m \<and>
           groups m 1 = Some [c] \<and> groups m 3 = Some link \<and>
           (c = 0x78 \<or> c = 0x20) \<and> (bang = [] \<or> bang = js ''!'') \<and>
           split 0x0A (js ''- [x] ![[Beta]]'') ! 0 =
             before m @ js ''- ['' @ [c] @ js ''] '' @ bang @ js ''[['' @ link @ js '']]'' @ after m \<and>
           split 0x0A (fst (toggleEmbeds (js ''- [x] ![[Beta]]'') False)) ! 0 =
             before m @ js ''- ['' @ [c] @ js ''] '' @ (if False then js ''!'' else []) @
               js ''[['' @ link @ js '']]'' @ after m)"
proof -
  let ?D = "js ''- [x] ![[Beta]]''"
  have h1: "0 < length (split 0x0A ?D)" by code_simp
  have h2: "exec checklist_test (split 0x0A ?D ! 0) \<noteq> None" by code_simp
  show ?thesis using C3_matching_lines [OF h1 h2, of False] h1 h2 by blast
qed

text \<open>
  Claim C4, as the code has it. The pattern is not anchored: a line matches exactly when,
  after any text at all, it has \<^verbatim>\<open>- [\<close>, then \<^verbatim>\<open>x\<close> or a space, then \<^verbatim>\<open>] \<close>, then
  an exclamation mark or nothing, then \<^verbatim>\<open>[[\<close>, then a target without line terminators,
  then \<^verbatim>\<open>]]\<close>; and only a matching line is changed.
\<close>

theorem C4_unanchored:
  "(exec checklist_test l \<noteq> None \<longleftrightarrow>
      (\<exists>pre c bang link rest.
         l = pre @ js ''- ['' @ [c] @ js ''] '' @ bang @ js ''[['' @ link @ js '']]'' @ rest \<and>
         (c = 0x78 \<or> c = 0x20) \<and> (bang = [] \<or> bang = js ''!'') \<and>
         (\<forall>x \<in> set link. \<not> is_line_terminator x))) \<and>
   (rewrite_line E l \<noteq> l \<longrightarrow> exec checklist_test l \<noteq> None)"
proof (intro conjI iffI)
  assume "exec checklist_test l \<noteq> None"
  then obtain p c b link r where ps: "parses l p c b link r"
    by (cases l rule: line_cases) auto
  then obtain ms where cl: "closes (link @ js '']]'' @ r) = (link, r) # ms"
    by (auto simp: parses_def)
  have nt: "\<forall>x \<in> set link. \<not> is_line_terminator x"
    using closes_split [of link r "link @ js '']]'' @ r"] cl by simp
  have l: "l = p @ js ''- ['' @ [c] @ js ''] '' @ (if b then js ''!'' else []) @
                 js ''[['' @ link @ js '']]'' @ r"
    using ps by (simp add: parses_def hdr_expand)
  have cok: "c = 0x78 \<or> c = 0x20" using ps by (simp add: parses_def js_def)
  have bg: "(if b then js ''!'' else []) = [] \<or> (if b then js ''!'' else []) = js ''!''" by simp
  show "\<exists>pre c bang link rest.
         l = pre @ js ''- ['' @ [c] @ js ''] '' @ bang @ js ''[['' @ link @ js '']]'' @ rest \<and>
         (c = 0x78 \<or> c = 0x20) \<and> (bang = [] \<or> bang = js ''!'') \<and>
         (\<forall>x \<in> set link. \<not> is_line_terminator x)"
    using l cok bg nt
    by (intro exI [of _ p] exI [of _ c] exI [of _ "if b then js ''!'' else []"] exI [of _ link]
          exI [of _ r]) (intro conjI)
next
  assume "\<exists>pre c bang link rest.
         l = pre @ js ''- ['' @ [c] @ js ''] '' @ bang @ js ''[['' @ link @ js '']]'' @ rest \<and>
         (c = 0x78 \<or> c = 0x20) \<and> (bang = [] \<or> bang = js ''!'') \<and>
         (\<forall>x \<in> set link. \<not> is_line_terminator x)"
  then obtain pre c bang link rest where
    l: "l = pre @ js ''- ['' @ [c] @ js ''] '' @ bang @ js ''[['' @ link @ js '']]'' @ rest"
    and cok: "c = 0x78 \<or> c = 0x20" and bg: "bang = [] \<or> bang = js ''!''"
    and nt: "\<forall>x \<in> set link. \<not> is_line_terminator x"
    by blast
  have c': "c \<in> set (js ''x '')" using cok by (auto simp: js_def)
  obtain b where b: "js ''- ['' @ [c] @ js ''] '' @ bang @ js ''[['' = hdr c b"
  proof (cases "bang = []")
    case True
    then have "js ''- ['' @ [c] @ js ''] '' @ bang @ js ''[['' = hdr c False" by (simp add: hdr_def)
    then show ?thesis using that by blast
  next
    case False
    then have "js ''- ['' @ [c] @ js ''] '' @ bang @ js ''[['' = hdr c True"
      using bg by (simp add: hdr_def)
    then show ?thesis using that by blast
  qed
  have l': "l = pre @ hdr c b @ link @ js '']]'' @ rest"
    using l b by (metis append_assoc)
  have "rx checklist_replace (hdr c b @ link @ js '']]'' @ rest, Map.empty) \<noteq> []"
    using rx_replace_hdr [OF c', of b "link @ js '']]'' @ rest"] closes_complete [OF nt, of rest]
    by simp
  then have "search checklist_replace [] l \<noteq> None"
    using search_None_iff [of checklist_replace "[]" l] l' by blast
  then show "exec checklist_test l \<noteq> None"
    using exec_test_iff [of l] by (simp add: exec_def)
next
  show "rewrite_line E l \<noteq> l \<longrightarrow> exec checklist_test l \<noteq> None"
    using rewrite_line_nomatch [of l E] by blast
qed

text \<open>
  An indented checklist line, where the pattern occurs only after two spaces, is not left
  unchanged.
\<close>

theorem C4_counterexample:
  "fst (toggleEmbeds (js ''  - [ ] [[A]]'') True) \<noteq> js ''  - [ ] [[A]]''"
  by code_simp

text \<open>The indented line matches, by the decomposition with two spaces in front.\<close>

theorem C4_witness:
  "exec checklist_test (js ''  - [ ] [[A]]'') \<noteq> None \<and>
   rewrite_line True (js ''  - [ ] [[A]]'') = js ''  - [ ] ![[A]]''"
proof -
  have d: "js ''  - [ ] [[A]]'' =
           js ''  '' @ js ''- ['' @ [0x20] @ js ''] '' @ [] @ js ''[['' @ js ''A'' @ js '']]'' @ []"
    by (simp add: js_def)
  have "\<forall>x \<in> set (js ''A''). \<not> is_line_terminator x"
    by (simp add: js_def is_line_terminator_def)
  then have "exec checklist_test (js ''  - [ ] [[A]]'') \<noteq> None"
    using C4_unanchored [of "js ''  - [ ] [[A]]''" True] d by blast
  moreover have "rewrite_line True (js ''  - [ ] [[A]]'') = js ''  - [ ] ![[A]]''" by code_simp
  ultimately show ?thesis by simp
qed

text \<open>
  Claim C5. A line of the document that does not match the pattern is, at the same
  position, the same line in the transformed document, which has as many lines.
\<close>

theorem C5_unmatched_lines:
  assumes "i < length (split 0x0A D)" and "exec checklist_test (split 0x0A D ! i) = None"
  shows "length (split 0x0A (fst (toggleEmbeds D E))) = length (split 0x0A D) \<and>
         split 0x0A (fst (toggleEmbeds D E)) ! i = split 0x0A D ! i"
  using assms by (simp add: split_toggleEmbeds rewrite_line_nomatch)

text \<open>The third line of the document of claim C1.\<close>

theorem C5_witness:
  "2 < length (split 0x0A (js ''- [ ] [[Alpha]]\<newline>- [x] ![[Beta]]\<newline>- plain text'')) \<and>
   exec checklist_test
     (split 0x0A (js ''- [ ] [[Alpha]]\<newline>- [x] ![[Beta]]\<newline>- plain text'') ! 2) = None \<and>
   split 0x0A (fst (toggleEmbeds (js ''- [ ] [[Alpha]]\<newline>- [x] ![[Beta]]\<newline>- plain text'') True)) ! 2
     = js ''- plain text''"
proof -
  let ?D = "js ''- [ ] [[Alpha]]\<newline>- [x] ![[Beta]]\<newline>- plain text''"
  have h1: "2 < length (split 0x0A ?D)" by code_simp
  have h2: "exec checklist_test (split 0x0A ?D ! 2) = None" by code_simp
  have h3: "split 0x0A ?D ! 2 = js ''- plain text''" by code_simp
  show ?thesis using C5_unmatched_lines [OF h1 h2, of True] h1 h2 h3 by simp
qed

text \<open>
  Claim C6. \<open>isValidFileName s\<close> holds exactly when \<open>s\<close> has none of slash, backslash,
  question mark, percent, asterisk, colon, bar, double quote, less-than and greater-than;
  it holds for \<^verbatim>\<open>note\<close> and for the empty string, and fails for \<^verbatim>\<open>a/b\<close> and
  \<^verbatim>\<open>a:b\<close>.
\<close>

theorem C6_isValidFileName:
  "(isValidFileName s \<longleftrightarrow>
      set s \<inter> {0x2F, 0x5C, 0x3F, 0x25, 0x2A, 0x3A, 0x7C, 0x22, 0x3C, 0x3E} = {}) \<and>
   isValidFileName (js ''note'') \<and> \<not> isValidFileName (js ''a/b'') \<and>
   \<not> isValidFileName (js ''a:b'') \<and> isValidFileName (js '''')"
proof -
  have "isValidFileName s \<longleftrightarrow>
      set s \<inter> {0x2F, 0x5C, 0x3F, 0x25, 0x2A, 0x3A, 0x7C, 0x22, 0x3C, 0x3E} = {}"
    by (simp add: isValidFileName_iff forbidden_chars_def)
  moreover have "isValidFileName (js ''note'')" by code_simp
  moreover have "\<not> isValidFileName (js ''a/b'')" by code_simp
  moreover have "\<not> isValidFileName (js ''a:b'')" by code_simp
  moreover have "isValidFileName (js '''')" by code_simp
  ultimately show ?thesis by blast
qed

text \<open>
  Claim C7. On the key Enter: if the input's value is a valid file name and the vault has
  nothing at \<^verbatim>\<open>Research/\<close> + the trimmed value + \<^verbatim>\<open>.md\<close>, exactly one call of
  \<^verbatim>\<open>vault.create\<close> is added, for that path and with the whole selected text, and the
  dialog is closed; if the value is not valid, no call is added, the dialog stays as it
  was and the error paragraph shows \<^verbatim>\<open>Invalid file name.\<close>; if the value is valid and
  the vault has something at the path, no call is added, the dialog stays as it was and
  the error paragraph shows \<^verbatim>\<open>File already exists.\<close>
\<close>

theorem C7_submit:
  "(isValidFileName (textInput_value m) \<and>
    vault m (js ''Research/'' @ trim (textInput_value m) @ js ''.md'') = None \<longrightarrow>
      vault_create_calls (fst (on_keydown (js ''Enter'') m)) =
        vault_create_calls m @
          [(js ''Research/'' @ trim (textInput_value m) @ js ''.md'', selectedText m)] \<and>
      closed (fst (on_keydown (js ''Enter'') m))) \<and>
   (\<not> isValidFileName (textInput_value m) \<longrightarrow>
      vault_create_calls (fst (on_keydown (js ''Enter'') m)) = vault_create_calls m \<and>
      closed (fst (on_keydown (js ''Enter'') m)) = closed m \<and>
      errorMessage_text (fst (on_keydown (js ''Enter'') m)) = js ''Invalid file name.'' \<and>
      errorMessage_display (fst (on_keydown (js ''Enter'') m)) = js ''block'') \<and>
   (isValidFileName (textInput_value m) \<and>
    vault m (js ''Research/'' @ trim (textInput_value m) @ js ''.md'') \<noteq> None \<longrightarrow>
      vault_create_calls (fst (on_keydown (js ''Enter'') m)) = vault_create_calls m \<and>
      closed (fst (on_keydown (js ''Enter'') m)) = closed m \<and>
      errorMessage_text (fst (on_keydown (js ''Enter'') m)) = js ''File already exists.'' \<and>
      errorMessage_display (fst (on_keydown (js ''Enter'') m)) = js ''block'')"
  by (simp add: on_keydown_def showError_def Let_def)

text \<open>
  The three cases: the selection \<^verbatim>\<open>My Note\<close>, \<^verbatim>\<open>Body text\<close> on an empty vault, the
  selection \<^verbatim>\<open>Bad/Name\<close>, and the first selection when \<^verbatim>\<open>Research/My Note.md\<close> exists.
\<close>

theorem C7_witness:
  "vault_create_calls (fst (on_keydown (js ''Enter'') (onOpen Map.empty (js ''My Note\<newline>Body text'')))) =
     [(js ''Research/My Note.md'', js ''My Note\<newline>Body text'')] \<and>
   closed (fst (on_keydown (js ''Enter'') (onOpen Map.empty (js ''My Note\<newline>Body text'')))) \<and>
   vault_create_calls (fst (on_keydown (js ''Enter'') (onOpen Map.empty (js ''Bad/Name'')))) = [] \<and>
   errorMessage_text (fst (on_keydown (js ''Enter'') (onOpen Map.empty (js ''Bad/Name'')))) =
     js ''Invalid file name.'' \<and>
   vault_create_calls (fst (on_keydown (js ''Enter'')
      (onOpen [js ''Research/My Note.md'' \<mapsto> TFile (js ''old'')] (js ''My Note\<newline>Body text'')))) = [] \<and>
   errorMessage_text (fst (on_keydown (js ''Enter'')
      (onOpen [js ''Research/My Note.md'' \<mapsto> TFile (js ''old'')] (js ''My Note\<newline>Body text'')))) =
     js ''File already exists.''"
proof -
  let ?sel = "js ''My Note\<newline>Body text''"
  let ?m1 = "onOpen Map.empty ?sel"
  let ?m2 = "onOpen Map.empty (js ''Bad/Name'')"
  let ?m3 = "onOpen [js ''Research/My Note.md'' \<mapsto> TFile (js ''old'')] ?sel"
  have t: "split 0x0A ?sel = [js ''My Note'', js ''Body text'']" by code_simp
  have t2: "split 0x0A (js ''Bad/Name'') = [js ''Bad/Name'']" by code_simp
  have v1: "textInput_value ?m1 = js ''My Note''" "selectedText ?m1 = ?sel"
    "vault_create_calls ?m1 = []" "vault ?m1 = Map.empty"
    by (simp_all add: onOpen_def t valid_My_Note Let_def)
  have v2: "textInput_value ?m2 = js ''Bad/Name''" "vault_create_calls ?m2 = []"
    by (simp_all add: onOpen_def t2 invalid_Bad_Name showError_def Let_def)
  have v3: "textInput_value ?m3 = js ''My Note''" "vault_create_calls ?m3 = []"
    "vault ?m3 = [js ''Research/My Note.md'' \<mapsto> TFile (js ''old'')]"
    by (simp_all add: onOpen_def t valid_My_Note Let_def)
  have p: "js ''Research/'' @ trim (js ''My Note'') @ js ''.md'' = js ''Research/My Note.md''"
    by (simp only: trim_My_Note) (simp add: js_def)
  have a: "vault_create_calls (fst (on_keydown (js ''Enter'') ?m1)) =
             [(js ''Research/My Note.md'', ?sel)] \<and> closed (fst (on_keydown (js ''Enter'') ?m1))"
    using C7_submit [of ?m1] valid_My_Note by (simp only: v1 p) simp
  have b: "vault_create_calls (fst (on_keydown (js ''Enter'') ?m2)) = [] \<and>
           errorMessage_text (fst (on_keydown (js ''Enter'') ?m2)) = js ''Invalid file name.''"
    using C7_submit [of ?m2] invalid_Bad_Name by (simp only: v2) simp
  have c: "vault_create_calls (fst (on_keydown (js ''Enter'') ?m3)) = [] \<and>
           errorMessage_text (fst (on_keydown (js ''Enter'') ?m3)) = js ''File already exists.''"
    using C7_submit [of ?m3] valid_My_Note by (simp only: v3 p) simp
  show ?thesis using a b c by blast
qed

text \<open>
  Claim C8, as the code has it. The command is registered with the id
  \<^verbatim>\<open>toggle-embedding\<close>, and its check callback answers true exactly when the view's type
  is \<^verbatim>\<open>markdown\<close>, changing nothing.
\<close>

theorem C8_command:
  "toggle_command \<in> set registered_commands \<and>
   cmd_id toggle_command = js ''toggle-embedding'' \<and>
   (fst (toggle_editorCheckCallback True v st) = Some True \<longleftrightarrow> getViewType v = js ''markdown'') \<and>
   snd (toggle_editorCheckCallback True v st) = st"
  by (simp add: registered_commands_def toggle_command_def toggle_editorCheckCallback_def)

text \<open>The id of the command is not \<^verbatim>\<open>toggle-embedding-notes\<close>.\<close>

theorem C8_counterexample: "cmd_id toggle_command \<noteq> js ''toggle-embedding-notes''"
  by (simp add: toggle_command_def js_def)

text \<open>
  Claim C9. For every text and flag, a second pass with the same flag gives the same text
  as the first pass alone.
\<close>

theorem C9_idempotent:
  "fst (toggleEmbeds (fst (toggleEmbeds D E)) E) = fst (toggleEmbeds D E)"
  by (rule toggle_twice_text)

text \<open>
  Claim C10. Validation reads the input's value as it is, the path is built from the
  trimmed value. So for a value made of white space and line terminators only (the empty
  value included) validation passes, the trimmed value is empty, and if the vault has
  nothing at \<^verbatim>\<open>Research/.md\<close> the key Enter adds the call of \<^verbatim>\<open>vault.create\<close> for that
  path with the selected text, and closes the dialog.
\<close>

theorem C10_whitespace_input:
  assumes "\<forall>x \<in> set (textInput_value m). is_white_space x \<or> is_line_terminator x"
  shows "isValidFileName (textInput_value m) \<and> trim (textInput_value m) = [] \<and>
         (vault m (js ''Research/.md'') = None \<longrightarrow>
            fst (on_keydown (js ''Enter'') m) =
              m\<lparr>vault_create_calls := vault_create_calls m @ [(js ''Research/.md'', selectedText m)],
                closed := True\<rparr>)"
proof -
  have tr: "\<forall>x \<in> set (textInput_value m). trimmable x"
    using assms by (simp add: trimmable_def)
  have v: "isValidFileName (textInput_value m)"
    using tr trimmable_not_forbidden by (auto simp: isValidFileName_iff)
  have t: "trim (textInput_value m) = []" using trim_all_trimmable [OF tr] .
  have p: "js ''Research/'' @ [] @ js ''.md'' = js ''Research/.md''" by (simp add: js_def)
  show ?thesis using v t p by (simp add: on_keydown_def Let_def)
qed

text \<open>Three spaces typed into the dialog opened on \<^verbatim>\<open>My Note\<close>, \<^verbatim>\<open>Body text\<close>.\<close>

theorem C10_witness:
  "isValidFileName (js ''   '') \<and> trim (js ''   '') = [] \<and>
   vault_create_calls (fst (on_keydown (js ''Enter'') (on_input (js ''   '')
       (onOpen Map.empty (js ''My Note\<newline>Body text''))))) =
     [(js ''Research/.md'', js ''My Note\<newline>Body text'')]"
proof -
  let ?m = "on_input (js ''   '') (onOpen Map.empty (js ''My Note\<newline>Body text''))"
  have t: "split 0x0A (js ''My Note\<newline>Body text'') = [js ''My Note'', js ''Body text'']"
    by code_simp
  have ws: "\<forall>x \<in> set (js ''   ''). is_white_space x \<or> is_line_terminator x"
    by (simp add: js_def is_white_space_def)
  have vs: "isValidFileName (js ''   '')" by code_simp
  have v: "textInput_value ?m = js ''   ''" "vault ?m = Map.empty" "vault_create_calls ?m = []"
    "selectedText ?m = js ''My Note\<newline>Body text''"
    by (simp_all add: on_input_def onOpen_def t valid_My_Note vs clearError_def Let_def)
  have h: "\<forall>x \<in> set (textInput_value ?m). is_white_space x \<or> is_line_terminator x"
    using ws by (simp only: v)
  show ?thesis using C10_whitespace_input [OF h] by (simp only: v) simp
qed

end
